theory Spec2Isabelle
  imports Complex_Main "HOL-Library.Log_Nat"
begin

section \<open>Data model of \<^verbatim>\<open>src/main.py\<close>\<close>

text \<open>
  The three classes of the source: the enumerations \<^verbatim>\<open>PieceType\<close> and \<^verbatim>\<open>Color\<close>, the
  dataclass \<^verbatim>\<open>Piece\<close>, and the two attributes of \<^verbatim>\<open>ChessBoard\<close>. Every cell of the grid
  holds its own \<^verbatim>\<open>Piece\<close> object (\<^verbatim>\<open>_initialize_board\<close> creates one per cell and
  \<^verbatim>\<open>make_move\<close> only moves references), and the eight rows are eight distinct lists, so
  the grid is modelled by value: a list of rows of optional pieces.
\<close>

datatype PieceType = PAWN | KNIGHT | BISHOP | ROOK | QUEEN | KING

datatype Color = WHITE | BLACK

record Piece =
  piece_type :: PieceType
  color :: Color
  has_moved :: bool

type_synonym grid = "Piece option list list"

record ChessBoard =
  board :: grid
  current_turn :: Color

type_synonym pos = "int \<times> int"

text \<open>The exceptions the interpreter can raise while running the methods of the class.\<close>

datatype error = IndexError | NameError | ZeroDivisionError | OverflowError | AttributeError

section \<open>Python list subscripts\<close>

text \<open>
  \<^verbatim>\<open>xs[i]\<close> accepts \<^verbatim>\<open>-len(xs) <= i < len(xs)\<close>; a negative index counts from the end;
  anything else raises \<^verbatim>\<open>IndexError\<close>. The same holds for the store \<^verbatim>\<open>xs[i] = v\<close>.
\<close>

definition py_slot :: "'a list \<Rightarrow> int \<Rightarrow> error + nat" where
  "py_slot xs i =
     (if 0 \<le> i \<and> i < int (length xs) then Inr (nat i)
      else if - int (length xs) \<le> i \<and> i < 0 then Inr (nat (int (length xs) + i))
      else Inl IndexError)"

definition py_index :: "'a list \<Rightarrow> int \<Rightarrow> error + 'a" where
  "py_index xs i = (case py_slot xs i of Inl e \<Rightarrow> Inl e | Inr k \<Rightarrow> Inr (xs ! k))"

definition py_store :: "'a list \<Rightarrow> int \<Rightarrow> 'a \<Rightarrow> error + 'a list" where
  "py_store xs i v = (case py_slot xs i of Inl e \<Rightarrow> Inl e | Inr k \<Rightarrow> Inr (xs[k := v]))"

text \<open>\<^verbatim>\<open>self.board[r][c]\<close> and \<^verbatim>\<open>self.board[r][c] = v\<close>: the row is fetched first.\<close>

definition board_at :: "grid \<Rightarrow> int \<Rightarrow> int \<Rightarrow> error + Piece option" where
  "board_at g r c = (case py_index g r of Inl e \<Rightarrow> Inl e | Inr row \<Rightarrow> py_index row c)"

definition board_store :: "grid \<Rightarrow> int \<Rightarrow> int \<Rightarrow> Piece option \<Rightarrow> error + grid" where
  "board_store g r c v =
     (case py_slot g r of
        Inl e \<Rightarrow> Inl e
      | Inr k \<Rightarrow> (case py_store (g ! k) c v of
                   Inl e \<Rightarrow> Inl e
                 | Inr row \<Rightarrow> Inr (g[k := row])))"

section \<open>Python floats, as far as the slope needs them\<close>

text \<open>
  A float is either the positive infinity \<^verbatim>\<open>float('inf')\<close> or a finite binary64 value,
  kept as the rational it denotes (\<^verbatim>\<open>0.0\<close> and \<^verbatim>\<open>-0.0\<close> compare equal and are both the
  rational 0). The only operation that produces a finite float here is the true
  division \<^verbatim>\<open>int / int\<close>, which CPython rounds correctly: the result is the
  binary64 number nearest to the exact quotient, ties to the even significand, with gradual
  underflow below \<open>2 powi -1022\<close>; a result that would not fit raises
  \<^verbatim>\<open>OverflowError\<close>, a zero divisor raises \<^verbatim>\<open>ZeroDivisionError\<close>.
\<close>

datatype pyfloat = Fin rat | PosInf

definition ilog2 :: "rat \<Rightarrow> int" where
  \<comment> \<open>for \<open>q > 0\<close>: the exponent \<open>e\<close> with \<open>2 powi e \<le> q < 2 powi (e + 1)\<close>\<close>
  "ilog2 q =
     (let e0 = bitlen (fst (quotient_of q)) - bitlen (snd (quotient_of q))
      in if 2 powi e0 \<le> q then e0 else e0 - 1)"

definition round_half_even :: "rat \<Rightarrow> int" where
  "round_half_even x =
     (let f = \<lfloor>x\<rfloor>; r = x - of_int f
      in if r < 1 / 2 then f
         else if 1 / 2 < r then f + 1
         else if even f then f else f + 1)"

definition round_binary64 :: "rat \<Rightarrow> rat" where
  "round_binary64 q =
     (if q = 0 then 0
      else let e = max (ilog2 \<bar>q\<bar>) (- 1022);
               ulp = 2 powi (e - 52)
           in sgn q * of_int (round_half_even (\<bar>q\<bar> / ulp)) * ulp)"

definition true_div :: "int \<Rightarrow> int \<Rightarrow> error + pyfloat" where
  "true_div a b =
     (if b = 0 then Inl ZeroDivisionError
      else let r = round_binary64 (of_int a / of_int b)
           in if 2 powi 1024 \<le> \<bar>r\<bar> then Inl OverflowError else Inr (Fin r))"

text \<open>\<^verbatim>\<open>abs(x)\<close> on a float, and the comparison \<^verbatim>\<open>x == n\<close> of a float with an int literal.\<close>

fun py_abs :: "pyfloat \<Rightarrow> pyfloat" where
  "py_abs (Fin q) = Fin \<bar>q\<bar>"
| "py_abs PosInf = PosInf"

fun float_eq_int :: "pyfloat \<Rightarrow> int \<Rightarrow> bool" where
  "float_eq_int (Fin q) n = (q = of_int n)"
| "float_eq_int PosInf n = False"

section \<open>Geometry primitives\<close>

fun calculate_slope :: "pos \<Rightarrow> pos \<Rightarrow> error + pyfloat" where
  "calculate_slope (start_row, start_col) (end_row, end_col) =
     (if end_col - start_col = 0 then Inr PosInf
      else true_div (end_row - start_row) (end_col - start_col))"

fun calculate_distance :: "pos \<Rightarrow> pos \<Rightarrow> int" where
  "calculate_distance (start_row, start_col) (end_row, end_col) =
     max \<bar>end_row - start_row\<bar> \<bar>end_col - start_col\<bar>"

section \<open>Piece legality predicates\<close>

definition is_valid_bishop_move :: "pyfloat \<Rightarrow> bool" where
  "is_valid_bishop_move slope = float_eq_int (py_abs slope) 1"

definition is_valid_rook_move :: "pyfloat \<Rightarrow> bool" where
  "is_valid_rook_move slope = (float_eq_int slope 0 \<or> slope = PosInf)"

definition is_valid_queen_move :: "pyfloat \<Rightarrow> bool" where
  "is_valid_queen_move slope =
     (float_eq_int slope 0 \<or> slope = PosInf \<or> float_eq_int (py_abs slope) 1)"

definition is_valid_king_move :: "pyfloat \<Rightarrow> int \<Rightarrow> bool" where
  "is_valid_king_move slope distance =
     ((float_eq_int slope 0 \<or> slope = PosInf \<or> float_eq_int (py_abs slope) 1) \<and> distance = 1)"

fun is_valid_knight_move :: "pos \<Rightarrow> pos \<Rightarrow> bool" where
  "is_valid_knight_move (start_row, start_col) (end_row, end_col) =
     (let row_diff = \<bar>end_row - start_row\<bar>;
          col_diff = \<bar>end_col - start_col\<bar>
      in sort [row_diff, col_diff] = [1, 2])"

text \<open>
  The pawn predicate reads names. The values a name can be bound to when line 133 runs
  are the parameters, the locals assigned so far, and the module's globals (the imported
  names and the four classes); \<^verbatim>\<open>middle_row\<close> is assigned only on line 134. Reading a
  name that is bound nowhere raises \<^verbatim>\<open>NameError\<close>; reading the attribute
  \<^verbatim>\<open>has_moved\<close> of anything but a \<^verbatim>\<open>Piece\<close> raises \<^verbatim>\<open>AttributeError\<close>.
\<close>

datatype pyval =
    VBoard ChessBoard | VPos pos | VInt int | VColor Color | VPiece Piece | VGlobal

definition pawn_scope ::
  "ChessBoard \<Rightarrow> pos \<Rightarrow> pos \<Rightarrow> Color \<Rightarrow> int \<Rightarrow> (string \<times> pyval) list" where
  "pawn_scope self start_pos end_pos clr direction =
     [(''self'', VBoard self), (''start_pos'', VPos start_pos), (''end_pos'', VPos end_pos),
      (''color'', VColor clr),
      (''start_row'', VInt (fst start_pos)), (''start_col'', VInt (snd start_pos)),
      (''end_row'', VInt (fst end_pos)), (''end_col'', VInt (snd end_pos)),
      (''direction'', VInt direction),
      (''Enum'', VGlobal), (''List'', VGlobal), (''Tuple'', VGlobal), (''Optional'', VGlobal),
      (''dataclass'', VGlobal), (''PieceType'', VGlobal), (''Color'', VGlobal),
      (''Piece'', VGlobal), (''ChessBoard'', VGlobal)]"

definition read_has_moved :: "(string \<times> pyval) list \<Rightarrow> string \<Rightarrow> error + bool" where
  "read_has_moved scope x =
     (case map_of scope x of
        None \<Rightarrow> Inl NameError
      | Some (VPiece p) \<Rightarrow> Inr (has_moved p)
      | Some _ \<Rightarrow> Inl AttributeError)"

fun is_valid_pawn_move :: "ChessBoard \<Rightarrow> pos \<Rightarrow> pos \<Rightarrow> Color \<Rightarrow> error + bool" where
  "is_valid_pawn_move self (start_row, start_col) (end_row, end_col) clr =
     (let direction = (if clr = BLACK then 1 else - 1 :: int)
      in if start_col = end_col then
           (if end_row - start_row = direction then
              (case board_at (board self) end_row end_col of
                 Inl e \<Rightarrow> Inl e
               | Inr cell \<Rightarrow> Inr (cell = None))
            else
              (case read_has_moved
                      (pawn_scope self (start_row, start_col) (end_row, end_col) clr direction)
                      ''piece'' of
                 Inl e \<Rightarrow> Inl e
               | Inr moved \<Rightarrow>
                   if \<not> moved \<and> end_row - start_row = 2 * direction then
                     (let middle_row = start_row + direction
                      in (case board_at (board self) middle_row start_col of
                            Inl e \<Rightarrow> Inl e
                          | Inr (Some p) \<Rightarrow> Inr False
                          | Inr None \<Rightarrow>
                              (case board_at (board self) end_row end_col of
                                 Inl e \<Rightarrow> Inl e
                               | Inr cell \<Rightarrow> Inr (cell = None))))
                   else Inr False))
         else if \<bar>end_col - start_col\<bar> = 1 \<and> end_row - start_row = direction then
           (case board_at (board self) end_row end_col of
              Inl e \<Rightarrow> Inl e
            | Inr cell \<Rightarrow> Inr (cell \<noteq> None))
         else Inr False)"

fun is_within_bounds :: "pos \<Rightarrow> bool" where
  "is_within_bounds (row, col) = (0 \<le> row \<and> row < 8 \<and> 0 \<le> col \<and> col < 8)"

section \<open>Move legality dispatch and application\<close>

fun is_valid_move :: "ChessBoard \<Rightarrow> pos \<Rightarrow> pos \<Rightarrow> error + bool" where
  "is_valid_move self (start_row, start_col) (end_row, end_col) =
     (if \<not> is_within_bounds (end_row, end_col) then Inr False
      else
        (case board_at (board self) start_row start_col of
           Inl e \<Rightarrow> Inl e
         | Inr None \<Rightarrow> Inr False
         | Inr (Some piece) \<Rightarrow>
             (case board_at (board self) end_row end_col of
                Inl e \<Rightarrow> Inl e
              | Inr target \<Rightarrow>
                  if target \<noteq> None \<and> color (the target) = color piece then Inr False
                  else
                    (case calculate_slope (start_row, start_col) (end_row, end_col) of
                       Inl e \<Rightarrow> Inl e
                     | Inr slope \<Rightarrow>
                         (let distance = calculate_distance (start_row, start_col) (end_row, end_col)
                          in (case piece_type piece of
                                BISHOP \<Rightarrow> Inr (is_valid_bishop_move slope)
                              | ROOK \<Rightarrow> Inr (is_valid_rook_move slope)
                              | QUEEN \<Rightarrow> Inr (is_valid_queen_move slope)
                              | KNIGHT \<Rightarrow>
                                  Inr (is_valid_knight_move (start_row, start_col) (end_row, end_col))
                              | KING \<Rightarrow> Inr (is_valid_king_move slope distance)
                              | PAWN \<Rightarrow>
                                  is_valid_pawn_move self (start_row, start_col)
                                    (end_row, end_col) (color piece)))))))"

text \<open>
  \<^verbatim>\<open>make_move\<close> returns its boolean together with the board it leaves behind. When the
  legality check raises, nothing has been written yet and the exception is the result.
  The piece object written to the destination is the one whose flag line 168 sets, so
  the destination receives the piece with \<open>has_moved = True\<close>.
\<close>

fun make_move :: "ChessBoard \<Rightarrow> pos \<Rightarrow> pos \<Rightarrow> error + (bool \<times> ChessBoard)" where
  "make_move self (start_row, start_col) (end_row, end_col) =
     (case is_valid_move self (start_row, start_col) (end_row, end_col) of
        Inl e \<Rightarrow> Inl e
      | Inr False \<Rightarrow> Inr (False, self)
      | Inr True \<Rightarrow>
          (case board_at (board self) start_row start_col of
             Inl e \<Rightarrow> Inl e
           | Inr None \<Rightarrow> Inl AttributeError
           | Inr (Some piece) \<Rightarrow>
               (case board_store (board self) end_row end_col
                       (Some (piece\<lparr>has_moved := True\<rparr>)) of
                  Inl e \<Rightarrow> Inl e
                | Inr g1 \<Rightarrow>
                    (case board_store g1 start_row start_col None of
                       Inl e \<Rightarrow> Inl e
                     | Inr g2 \<Rightarrow>
                         Inr (True, self\<lparr>board := g2,
                                current_turn :=
                                  (if current_turn self = WHITE then BLACK else WHITE)\<rparr>)))))"

text \<open>
  \<^verbatim>\<open>is_path_clear\<close>: the \<^verbatim>\<open>while\<close> loop has no bound of its own, so it is a partial
  function; \<open>None\<close> is the run that never returns. \<^verbatim>\<open>//\<close> is floor division, as
  \<open>div\<close> on \<open>int\<close> is.
\<close>

partial_function (option) path_loop ::
  "grid \<Rightarrow> pos \<Rightarrow> int \<Rightarrow> int \<Rightarrow> int \<Rightarrow> int \<Rightarrow> (error + bool) option" where
  "path_loop g end_pos row_step col_step current_row current_col =
     (if (current_row, current_col) \<noteq> end_pos then
        (case board_at g current_row current_col of
           Inl e \<Rightarrow> Some (Inl e)
         | Inr (Some p) \<Rightarrow> Some (Inr False)
         | Inr None \<Rightarrow>
             path_loop g end_pos row_step col_step
               (current_row + row_step) (current_col + col_step))
      else Some (Inr True))"

declare path_loop.simps [code]

fun is_path_clear :: "ChessBoard \<Rightarrow> pos \<Rightarrow> pos \<Rightarrow> (error + bool) option" where
  "is_path_clear self (start_row, start_col) (end_row, end_col) =
     (let row_step = (if start_row = end_row then 0
                      else (end_row - start_row) div \<bar>end_row - start_row\<bar>);
          col_step = (if start_col = end_col then 0
                      else (end_col - start_col) div \<bar>end_col - start_col\<bar>);
          current_row = start_row + row_step;
          current_col = start_col + col_step
      in path_loop (board self) (end_row, end_col) row_step col_step current_row current_col)"

section \<open>Construction of the board\<close>

definition empty_grid :: grid where
  "empty_grid = replicate 8 (replicate 8 None)"

definition new_piece :: "PieceType \<Rightarrow> Color \<Rightarrow> Piece" where
  "new_piece t c = \<lparr>piece_type = t, color = c, has_moved = False\<rparr>"

text \<open>The stores of \<^verbatim>\<open>_initialize_board\<close> use the literal rows 0, 1, 6, 7 and
  \<^verbatim>\<open>col in range(8)\<close>, all inside the 8 by 8 grid.\<close>

definition place :: "grid \<Rightarrow> nat \<Rightarrow> nat \<Rightarrow> Piece \<Rightarrow> grid" where
  "place g r c p = g[r := (g ! r)[c := Some p]]"

definition piece_order :: "PieceType list" where
  "piece_order = [ROOK, KNIGHT, BISHOP, QUEEN, KING, BISHOP, KNIGHT, ROOK]"

definition initialize_board :: "grid \<Rightarrow> grid" where
  "initialize_board g =
     (let g1 = fold (\<lambda>col g. place (place g 1 col (new_piece PAWN WHITE))
                                 6 col (new_piece PAWN BLACK)) [0..<8] g
      in fold (\<lambda>col g. place (place g 0 col (new_piece (piece_order ! col) WHITE))
                           7 col (new_piece (piece_order ! col) BLACK)) [0..<8] g1)"

definition new_ChessBoard :: ChessBoard where
  "new_ChessBoard = \<lparr>board = initialize_board empty_grid, current_turn = WHITE\<rparr>"

section \<open>Notions the properties are stated with\<close>

text \<open>A grid as the constructor builds it and \<^verbatim>\<open>make_move\<close> keeps it: eight rows of
  eight cells.\<close>

definition grid_8x8 :: "grid \<Rightarrow> bool" where
  "grid_8x8 g = (length g = 8 \<and> list_all (\<lambda>row. length row = 8) g)"

text \<open>A run of \<^verbatim>\<open>make_move\<close> calls that all return \<^verbatim>\<open>True\<close>; \<open>None\<close> as soon as one
  call returns \<^verbatim>\<open>False\<close> or raises.\<close>

fun make_moves :: "ChessBoard \<Rightarrow> (pos \<times> pos) list \<Rightarrow> ChessBoard option" where
  "make_moves b [] = Some b"
| "make_moves b ((s, e) # ms) =
     (case make_move b s e of
        Inr (True, b') \<Rightarrow> make_moves b' ms
      | _ \<Rightarrow> None)"

text \<open>The exact-integer bishop test the specification proposes in place of the
  floating-point one: \<open>|\<Delta>row| = |\<Delta>col|\<close> with both deltas nonzero.\<close>

fun bishop_exact_int :: "pos \<Rightarrow> pos \<Rightarrow> bool" where
  "bishop_exact_int (start_row, start_col) (end_row, end_col) =
     (\<bar>end_row - start_row\<bar> = \<bar>end_col - start_col\<bar>
      \<and> end_row - start_row \<noteq> 0 \<and> end_col - start_col \<noteq> 0)"

text \<open>
  The queen geometry on the coordinates themselves, the slope being rise over run
  between the two squares: slope 0 is \<open>\<Delta>row = 0\<close> with \<open>\<Delta>col \<noteq> 0\<close>, the vertical
  sentinel is \<open>\<Delta>col = 0\<close>, and \<open>|slope| = 1\<close> is \<open>|\<Delta>row| = |\<Delta>col|\<close> with
  \<open>\<Delta>col \<noteq> 0\<close>.
\<close>

fun queen_geometry :: "pos \<Rightarrow> pos \<Rightarrow> bool" where
  "queen_geometry (start_row, start_col) (end_row, end_col) =
     ((end_row - start_row = 0 \<and> end_col - start_col \<noteq> 0)
      \<or> end_col - start_col = 0
      \<or> (\<bar>end_row - start_row\<bar> = \<bar>end_col - start_col\<bar> \<and> end_col - start_col \<noteq> 0))"

text \<open>The rook geometry as the specification words it: pure horizontal or pure vertical.\<close>

fun rook_pure_line :: "pos \<Rightarrow> pos \<Rightarrow> bool" where
  "rook_pure_line (start_row, start_col) (end_row, end_col) =
     ((end_row - start_row = 0 \<and> end_col - start_col \<noteq> 0)
      \<or> (end_col - start_col = 0 \<and> end_row - start_row \<noteq> 0))"

text \<open>
  The squares strictly between two squares: the squares of the board, other than the
  two endpoints, that lie inside the bounding box of the endpoints and on the straight
  line through them (zero cross product).
\<close>

fun strictly_between :: "pos \<Rightarrow> pos \<Rightarrow> pos \<Rightarrow> bool" where
  "strictly_between (sr, sc) (er, ec) (r, c) =
     ((r, c) \<noteq> (sr, sc) \<and> (r, c) \<noteq> (er, ec)
      \<and> min sr er \<le> r \<and> r \<le> max sr er \<and> min sc ec \<le> c \<and> c \<le> max sc ec
      \<and> (r - sr) * (ec - sc) = (c - sc) * (er - sr))"

definition all_squares :: "pos list" where
  "all_squares = concat (map (\<lambda>r. map (\<lambda>c. (r, c)) [0..7]) [0..7])"

definition squares_between :: "pos \<Rightarrow> pos \<Rightarrow> pos list" where
  "squares_between s e = filter (strictly_between s e) all_squares"

text \<open>A board that holds a single white pawn, not yet moved, on (6, 3).\<close>

definition lone_pawn_board :: ChessBoard where
  "lone_pawn_board =
     \<lparr>board = place empty_grid 6 3 (new_piece PAWN WHITE), current_turn = WHITE\<rparr>"

text \<open>A board that holds a single white king on (4, 4).\<close>

definition lone_king_board :: ChessBoard where
  "lone_king_board =
     \<lparr>board = place empty_grid 4 4 (new_piece KING WHITE), current_turn = WHITE\<rparr>"

definition square_empty :: "ChessBoard \<Rightarrow> pos \<Rightarrow> bool" where
  "square_empty b p = (board_at (board b) (fst p) (snd p) = Inr None)"

section \<open>Subscripts on an 8 by 8 grid\<close>

lemma grid_8x8_row: "grid_8x8 g \<Longrightarrow> k < 8 \<Longrightarrow> length (g ! k) = 8"
  by (simp add: grid_8x8_def list_all_length)

lemma py_index_8:
  "length xs = 8 \<Longrightarrow> py_index xs i =
     (if - 8 \<le> i \<and> i < 8 then Inr (xs ! nat (if i < 0 then 8 + i else i))
      else Inl IndexError)"
  by (simp add: py_index_def py_slot_def)

lemma board_at_8x8:
  assumes "grid_8x8 g"
  shows "board_at g r c =
     (if - 8 \<le> r \<and> r < 8 \<and> - 8 \<le> c \<and> c < 8
      then Inr (g ! nat (if r < 0 then 8 + r else r) ! nat (if c < 0 then 8 + c else c))
      else Inl IndexError)"
proof -
  have len: "length g = 8" using assms by (simp add: grid_8x8_def)
  define k where "k = nat (if r < 0 then 8 + r else r)"
  show ?thesis
  proof (cases "- 8 \<le> r \<and> r < 8")
    case False
    then have "py_index g r = Inl IndexError" by (auto simp: py_index_8 [OF len])
    with False show ?thesis by (auto simp: board_at_def)
  next
    case True
    then have "k < 8" by (auto simp: k_def)
    then have row: "length (g ! k) = 8" by (rule grid_8x8_row [OF assms])
    from True have "py_index g r = Inr (g ! k)" by (simp add: py_index_8 [OF len] k_def)
    with True show ?thesis
      by (simp add: board_at_def py_index_8 [OF row] flip: k_def)
  qed
qed

lemma make_move_turn:
  "make_move b s e = Inr (True, b') \<Longrightarrow>
     current_turn b' = (if current_turn b = WHITE then BLACK else WHITE)"
  by (cases s; cases e) (auto split: sum.splits bool.splits option.splits)

lemma make_moves_turn:
  "make_moves b ms = Some b' \<Longrightarrow>
     current_turn b' = (if even (length ms) then current_turn b
                        else if current_turn b = WHITE then BLACK else WHITE)"
proof (induction ms arbitrary: b)
  case Nil
  then show ?case by simp
next
  case (Cons m ms)
  obtain s e where m: "m = (s, e)" by (cases m)
  from Cons.prems m obtain b1 where
    step: "make_move b s e = Inr (True, b1)" and rest: "make_moves b1 ms = Some b'"
    by (auto split: sum.splits bool.splits prod.splits)
  from make_move_turn [OF step] Cons.IH [OF rest] show ?case
    by (cases "current_turn b") auto
qed

section \<open>Correct rounding of the true division\<close>

lemma round_half_even_lower: "of_int n \<le> x \<Longrightarrow> n \<le> round_half_even x"
proof -
  assume "of_int n \<le> x"
  then have "n \<le> \<lfloor>x\<rfloor>" by (simp add: le_floor_iff)
  moreover have "\<lfloor>x\<rfloor> \<le> round_half_even x" by (simp add: round_half_even_def Let_def)
  ultimately show ?thesis by simp
qed

lemma round_half_even_upper: "x \<le> of_int n \<Longrightarrow> round_half_even x \<le> n"
proof -
  assume a: "x \<le> of_int n"
  then have f: "\<lfloor>x\<rfloor> \<le> n" by linarith
  show ?thesis
  proof (cases "\<lfloor>x\<rfloor> = n")
    case True
    with a have "x - of_int \<lfloor>x\<rfloor> \<le> 0" by simp
    then show ?thesis using True by (simp add: round_half_even_def Let_def)
  next
    case False
    with f have "\<lfloor>x\<rfloor> + 1 \<le> n" by simp
    then show ?thesis by (auto simp: round_half_even_def Let_def)
  qed
qed

lemma round_half_even_near: "\<bar>of_int (round_half_even x) - x\<bar> \<le> 1 / 2"
proof -
  have "of_int \<lfloor>x\<rfloor> \<le> x" "x < of_int \<lfloor>x\<rfloor> + 1" by linarith+
  then show ?thesis by (auto simp: round_half_even_def Let_def abs_le_iff)
qed

lemma bitlen_rat:
  assumes "0 < n"
  shows "2 powi (bitlen n - 1) \<le> (of_int n :: rat)" and "(of_int n :: rat) < 2 powi bitlen n"
proof -
  from assms have b: "1 \<le> bitlen n" by (simp add: bitlen_alt_def)
  have "(2::int) ^ nat (bitlen n - 1) \<le> n" "n < 2 ^ nat (bitlen n)"
    using bitlen_bounds [OF assms] by simp_all
  then have "(of_int (2 ^ nat (bitlen n - 1)) :: rat) \<le> of_int n"
    and "(of_int n :: rat) < of_int (2 ^ nat (bitlen n))"
    by (simp_all only: of_int_le_iff of_int_less_iff)
  then show "2 powi (bitlen n - 1) \<le> (of_int n :: rat)" and "(of_int n :: rat) < 2 powi bitlen n"
    using b by (simp_all add: power_int_def)
qed

lemma ilog2_bounds:
  assumes "0 < q"
  shows "2 powi ilog2 q \<le> q" and "q < 2 powi (ilog2 q + 1)"
proof -
  obtain n d where nd: "quotient_of q = (n, d)" by (cases "quotient_of q")
  then have d: "0 < d" by (rule quotient_of_denom_pos)
  have q: "q = of_int n / of_int d" using nd by (rule quotient_of_div)
  with assms d have n: "0 < n" by (simp add: zero_less_divide_iff)
  define bn bd where "bn = bitlen n" and "bd = bitlen d"
  have bn: "2 powi (bn - 1) \<le> (of_int n :: rat)" "(of_int n :: rat) < 2 powi bn"
    using bitlen_rat [OF n] by (simp_all add: bn_def)
  have bd: "2 powi (bd - 1) \<le> (of_int d :: rat)" "(of_int d :: rat) < 2 powi bd"
    using bitlen_rat [OF d] by (simp_all add: bd_def)
  have dpos: "(0::rat) < of_int d" using d by simp
  have "of_int n < 2 powi (bn - bd + 1) * (2 powi (bd - 1) :: rat)"
    using bn(2) by (simp flip: power_int_add)
  also have "\<dots> \<le> 2 powi (bn - bd + 1) * of_int d"
    using bd(1) by (simp add: mult_left_mono)
  finally have up: "q < 2 powi (bn - bd + 1)"
    using dpos by (simp add: q pos_divide_less_eq)
  have "2 powi (bn - bd - 1) * of_int d \<le> 2 powi (bn - bd - 1) * (2 powi bd :: rat)"
    using bd(2) by (simp add: mult_left_mono)
  also have "\<dots> = 2 powi (bn - 1)" by (simp flip: power_int_add)
  also have "\<dots> \<le> of_int n" by (rule bn(1))
  finally have lo: "2 powi (bn - bd - 1) \<le> q"
    using dpos by (simp add: q pos_le_divide_eq)
  have e: "ilog2 q = (if 2 powi (bn - bd) \<le> q then bn - bd else bn - bd - 1)"
    by (simp add: ilog2_def nd bn_def bd_def Let_def)
  show "2 powi ilog2 q \<le> q" using lo by (simp add: e)
  show "q < 2 powi (ilog2 q + 1)" using up by (auto simp: e)
qed

lemma round_binary64_bounds:
  assumes "q \<noteq> 0" and "- 1022 \<le> ilog2 \<bar>q\<bar>"
  shows "2 powi ilog2 \<bar>q\<bar> \<le> \<bar>round_binary64 q\<bar>"
    and "\<bar>round_binary64 q\<bar> \<le> 2 powi (ilog2 \<bar>q\<bar> + 1)"
    and "\<bar>\<bar>round_binary64 q\<bar> - \<bar>q\<bar>\<bar> \<le> 2 powi (ilog2 \<bar>q\<bar> - 53)"
proof -
  define e where "e = ilog2 \<bar>q\<bar>"
  define u :: rat where "u = 2 powi (e - 52)"
  define m where "m = round_half_even (\<bar>q\<bar> / u)"
  have u: "0 < u" by (simp add: u_def)
  from assms(1) have x: "0 < \<bar>q\<bar>" by simp
  have lo: "2 powi e \<le> \<bar>q\<bar>" and hi: "\<bar>q\<bar> < 2 powi (e + 1)"
    using ilog2_bounds [OF x] by (simp_all add: e_def)
  have p52: "2 powi e = 2 ^ 52 * u" "2 powi (e + 1) = 2 ^ 53 * u"
    by (simp_all add: u_def power_int_diff power_int_add)
  have "of_int (2 ^ 52) \<le> \<bar>q\<bar> / u" using lo u by (simp add: p52 pos_le_divide_eq)
  then have m_lo: "2 ^ 52 \<le> m" unfolding m_def by (rule round_half_even_lower)
  have "\<bar>q\<bar> / u \<le> of_int (2 ^ 53)" using hi u by (simp add: p52 pos_divide_le_eq)
  then have m_hi: "m \<le> 2 ^ 53" unfolding m_def by (rule round_half_even_upper)
  have r: "round_binary64 q = sgn q * of_int m * u"
    using assms by (simp add: round_binary64_def Let_def m_def u_def e_def max_def)
  from m_lo have m0: "0 \<le> m" by simp
  have absr: "\<bar>round_binary64 q\<bar> = of_int m * u"
    using assms(1) u m0 by (simp add: r abs_mult abs_sgn_eq)
  have "(2 ^ 52 :: rat) \<le> of_int m" using m_lo by (metis of_int_le_iff of_int_numeral of_int_power)
  then show "2 powi ilog2 \<bar>q\<bar> \<le> \<bar>round_binary64 q\<bar>"
    using u by (simp add: absr p52 flip: e_def)
  have "of_int m \<le> (2 ^ 53 :: rat)" using m_hi by (metis of_int_le_iff of_int_numeral of_int_power)
  then show "\<bar>round_binary64 q\<bar> \<le> 2 powi (ilog2 \<bar>q\<bar> + 1)"
    using u by (simp add: absr p52 flip: e_def)
  have "\<bar>of_int m - \<bar>q\<bar> / u\<bar> \<le> 1 / 2" unfolding m_def by (rule round_half_even_near)
  then have "\<bar>of_int m - \<bar>q\<bar> / u\<bar> * u \<le> 1 / 2 * u" using u by (simp add: mult_right_mono)
  moreover have "\<bar>of_int m - \<bar>q\<bar> / u\<bar> * u = \<bar>(of_int m - \<bar>q\<bar> / u) * u\<bar>"
    using u by (simp add: abs_mult)
  moreover have "(of_int m - \<bar>q\<bar> / u) * u = of_int m * u - \<bar>q\<bar>"
    using u by (simp add: left_diff_distrib)
  moreover have "1 / 2 * u = 2 powi (e - 53)" by (simp add: u_def power_int_diff)
  ultimately show "\<bar>\<bar>round_binary64 q\<bar> - \<bar>q\<bar>\<bar> \<le> 2 powi (ilog2 \<bar>q\<bar> - 53)"
    by (simp add: absr flip: e_def)
qed

lemma round_binary64_one: "round_binary64 1 = 1" "round_binary64 (- 1) = - 1"
  by code_simp+

lemma pow2_less_iff: "(2::rat) powi m < 2 powi n \<longleftrightarrow> m < n"
proof
  assume "m < n"
  then show "(2::rat) powi m < 2 powi n" by (rule power_int_strict_increasing) simp
next
  assume l: "(2::rat) powi m < 2 powi n"
  show "m < n"
  proof (rule ccontr)
    assume "\<not> m < n"
    then have "n \<le> m" by simp
    then have "(2::rat) powi n \<le> 2 powi m" by (rule power_int_increasing) simp
    with l show False by simp
  qed
qed

lemma pow2_le_iff: "(2::rat) powi m \<le> 2 powi n \<longleftrightarrow> m \<le> n"
  using pow2_less_iff [of n m] by (simp add: not_less [symmetric])

lemma true_div_small:
  assumes b: "b \<noteq> 0" and a53: "\<bar>a\<bar> < 2 ^ 53" and b53: "\<bar>b\<bar> < 2 ^ 53"
  shows "\<exists>q. true_div a b = Inr (Fin q) \<and> (q = 0 \<longleftrightarrow> a = 0) \<and> (\<bar>q\<bar> = 1 \<longleftrightarrow> \<bar>a\<bar> = \<bar>b\<bar>)"
proof (cases "a = 0")
  case True
  with b show ?thesis by (simp add: true_div_def round_binary64_def)
next
  case False
  define q0 :: rat where "q0 = of_int a / of_int b"
  define r where "r = round_binary64 q0"
  define e where "e = ilog2 \<bar>q0\<bar>"
  define A B :: rat where "A = of_int \<bar>a\<bar>" and "B = of_int \<bar>b\<bar>"
  have "1 \<le> \<bar>a\<bar>" "1 \<le> \<bar>b\<bar>" using False b by simp_all
  then have A1: "1 \<le> A" and B1: "1 \<le> B"
    unfolding A_def B_def by (simp_all only: of_int_1_le_iff)
  have "(of_int \<bar>a\<bar> :: rat) < of_int (2 ^ 53)" "(of_int \<bar>b\<bar> :: rat) < of_int (2 ^ 53)"
    using a53 b53 by (simp_all only: of_int_less_iff)
  then have A53: "A < 2 ^ 53" and B53: "B < 2 ^ 53" by (simp_all add: A_def B_def)
  have x: "\<bar>q0\<bar> = A / B" by (simp add: q0_def A_def B_def)
  from False b have q0: "q0 \<noteq> 0" by (simp add: q0_def)
  then have pos: "0 < \<bar>q0\<bar>" by simp
  have lo: "2 powi e \<le> \<bar>q0\<bar>" and hi: "\<bar>q0\<bar> < 2 powi (e + 1)"
    using ilog2_bounds [OF pos] by (simp_all add: e_def)
  have p53: "(2::rat) powi (- 53) = 1 / 2 ^ 53" "(2::rat) powi 53 = 2 ^ 53"
    by (simp_all add: power_int_minus_divide)
  have "1 / 2 ^ 53 < 1 / B" using B1 B53 by (simp add: field_simps)
  also have "\<dots> \<le> A / B" using A1 B1 by (simp add: field_simps)
  finally have "2 powi (- 53) < \<bar>q0\<bar>" by (simp add: x p53)
  with hi have "(2::rat) powi (- 53) < 2 powi (e + 1)" by simp
  then have e_lo: "- 53 \<le> e" by (simp only: pow2_less_iff)
  have "A / B \<le> A" using A1 B1 by (simp add: field_simps)
  with A53 have "\<bar>q0\<bar> < 2 powi 53" by (simp add: x p53)
  with lo have "(2::rat) powi e < 2 powi 53" by simp
  then have e_hi: "e + 1 \<le> 53" by (simp only: pow2_less_iff)
  from e_lo have e1022: "- 1022 \<le> ilog2 \<bar>q0\<bar>" by (simp add: e_def)
  note bnd = round_binary64_bounds [OF q0 e1022, folded r_def e_def]
  from e_hi have "(2::rat) powi (e + 1) \<le> 2 powi 53" by (simp only: pow2_le_iff)
  with bnd(2) have "\<bar>r\<bar> \<le> 2 powi 53" by simp
  moreover have "(2::rat) powi 53 < 2 powi 1024" by (simp only: pow2_less_iff)
  ultimately have small: "\<not> 2 powi 1024 \<le> \<bar>r\<bar>" by simp
  have "(0::rat) < 2 powi e" by simp
  also note bnd(1)
  finally have r0: "r \<noteq> 0" by simp
  have one: "\<bar>r\<bar> = 1 \<longleftrightarrow> \<bar>a\<bar> = \<bar>b\<bar>"
  proof
    assume "\<bar>a\<bar> = \<bar>b\<bar>"
    then have "\<bar>q0\<bar> = 1" using B1 by (simp add: x A_def B_def)
    then have "q0 = 1 \<or> q0 = - 1" by (auto simp: abs_if split: if_splits)
    then show "\<bar>r\<bar> = 1" by (auto simp: r_def round_binary64_one)
  next
    assume r1: "\<bar>r\<bar> = 1"
    with bnd(1) have "(2::rat) powi e \<le> 2 powi 0" by simp
    then have "e \<le> 0" by (simp only: pow2_le_iff)
    then have "(2::rat) powi (e - 53) \<le> 2 powi (- 53)" by (simp only: pow2_le_iff)
    with bnd(3) r1 have "\<bar>1 - A / B\<bar> \<le> 2 powi (- 53)" by (simp add: x)
    then have "\<bar>1 - A / B\<bar> * B \<le> 2 powi (- 53) * B" using B1 by (simp add: mult_right_mono)
    moreover have "\<bar>1 - A / B\<bar> * B = \<bar>(1 - A / B) * B\<bar>" using B1 by (simp add: abs_mult)
    moreover have "(1 - A / B) * B = B - A" using B1 by (simp add: left_diff_distrib)
    ultimately have "\<bar>B - A\<bar> \<le> 2 powi (- 53) * B" by simp
    also have "\<dots> < 1" using B53 by (simp add: p53)
    finally have "\<bar>B - A\<bar> < 1" .
    then have "(of_int \<bar>\<bar>b\<bar> - \<bar>a\<bar>\<bar> :: rat) < of_int 1" by (simp add: A_def B_def)
    then have "\<bar>\<bar>b\<bar> - \<bar>a\<bar>\<bar> < 1" by (simp only: of_int_less_iff)
    then show "\<bar>a\<bar> = \<bar>b\<bar>" by simp
  qed
  have "true_div a b = Inr (Fin r)"
    using b small by (simp add: true_div_def Let_def r_def q0_def)
  with r0 one False show ?thesis by simp
qed

lemma round_binary64_underflow:
  assumes "q \<noteq> 0" and "\<bar>q\<bar> < 2 powi (- 1075)"
  shows "round_binary64 q = 0"
proof -
  define e where "e = ilog2 \<bar>q\<bar>"
  from assms(1) have pos: "0 < \<bar>q\<bar>" by simp
  have "2 powi e \<le> \<bar>q\<bar>" using ilog2_bounds(1) [OF pos] by (simp add: e_def)
  with assms(2) have "(2::rat) powi e < 2 powi (- 1075)" by simp
  then have "e < - 1075" by (simp only: pow2_less_iff)
  then have m: "max e (- 1022) = - 1022" by simp
  define x where "x = \<bar>q\<bar> / 2 powi (- 1074)"
  have "2 powi (- 1075) = (1 / 2) * (2::rat) powi (- 1074)"
    by (simp add: power_int_minus_divide)
  with assms(2) have "x < 1 / 2" by (simp add: x_def pos_divide_less_eq)
  moreover have "0 \<le> x" by (simp add: x_def)
  ultimately have "\<lfloor>x\<rfloor> = 0" by (simp add: floor_eq_iff)
  with \<open>x < 1 / 2\<close> have "round_half_even x = 0" by (simp add: round_half_even_def Let_def)
  then show ?thesis
    using assms(1) m by (simp add: round_binary64_def Let_def x_def e_def)
qed

lemma slope_underflow: "calculate_slope (0, 0) (1, 2 ^ 1076) = Inr (Fin 0)"
proof -
  have "round_binary64 (1 / 2 ^ 1076) = 0"
    by (rule round_binary64_underflow) (simp_all add: power_int_minus_divide)
  then show ?thesis by (simp add: true_div_def)
qed

section \<open>The slope of two squares\<close>

lemma slope_small:
  assumes "\<bar>er - sr\<bar> < 2 ^ 53" and "\<bar>ec - sc\<bar> < 2 ^ 53"
  shows "\<exists>sl. calculate_slope (sr, sc) (er, ec) = Inr sl
           \<and> (float_eq_int sl 0 \<longleftrightarrow> er = sr \<and> ec \<noteq> sc)
           \<and> (sl = PosInf \<longleftrightarrow> ec = sc)
           \<and> (float_eq_int (py_abs sl) 1 \<longleftrightarrow> \<bar>er - sr\<bar> = \<bar>ec - sc\<bar> \<and> ec \<noteq> sc)"
proof (cases "ec = sc")
  case True
  then show ?thesis by simp
next
  case False
  then have "ec - sc \<noteq> 0" by simp
  from true_div_small [OF this assms] obtain q where
    q: "true_div (er - sr) (ec - sc) = Inr (Fin q)"
       "q = 0 \<longleftrightarrow> er - sr = 0" "\<bar>q\<bar> = 1 \<longleftrightarrow> \<bar>er - sr\<bar> = \<bar>ec - sc\<bar>"
    by blast
  with False show ?thesis by simp
qed

lemma slope_on_board:
  assumes "- 8 \<le> sr" "sr < 8" "- 8 \<le> sc" "sc < 8" and "is_within_bounds (er, ec)"
  shows "\<exists>sl. calculate_slope (sr, sc) (er, ec) = Inr sl
           \<and> (float_eq_int sl 0 \<longleftrightarrow> er = sr \<and> ec \<noteq> sc)
           \<and> (sl = PosInf \<longleftrightarrow> ec = sc)
           \<and> (float_eq_int (py_abs sl) 1 \<longleftrightarrow> \<bar>er - sr\<bar> = \<bar>ec - sc\<bar> \<and> ec \<noteq> sc)"
proof (rule slope_small)
  show "\<bar>er - sr\<bar> < 2 ^ 53" "\<bar>ec - sc\<bar> < 2 ^ 53" using assms by auto
qed

section \<open>Properties of the move legality engine\<close>

lemma is_valid_move_dispatch:
  assumes "is_within_bounds (er, ec)"
    and "board_at (board b) sr sc = Inr (Some p)"
    and "board_at (board b) er ec = Inr target"
    and "target = None \<or> color (the target) \<noteq> color p"
    and "calculate_slope (sr, sc) (er, ec) = Inr sl"
  shows "is_valid_move b (sr, sc) (er, ec) =
     (case piece_type p of
        BISHOP \<Rightarrow> Inr (is_valid_bishop_move sl)
      | ROOK \<Rightarrow> Inr (is_valid_rook_move sl)
      | QUEEN \<Rightarrow> Inr (is_valid_queen_move sl)
      | KNIGHT \<Rightarrow> Inr (is_valid_knight_move (sr, sc) (er, ec))
      | KING \<Rightarrow> Inr (is_valid_king_move sl (calculate_distance (sr, sc) (er, ec)))
      | PAWN \<Rightarrow> is_valid_pawn_move b (sr, sc) (er, ec) (color p))"
  using assms
  by (auto simp del: is_valid_pawn_move.simps is_within_bounds.simps calculate_slope.simps
      is_valid_knight_move.simps calculate_distance.simps)

text \<open>
  Claim C2. For a king on an in-bounds start square and an in-bounds end square that
  holds no piece of the king's colour, \<^verbatim>\<open>is_valid_move\<close> returns \<^verbatim>\<open>True\<close> exactly when
  the queen geometry holds between the two squares and the Chebyshev distance
  \<open>max |\<Delta>row| |\<Delta>col|\<close> is 1, that is, exactly when the end square is one of the eight
  neighbours of the start square. The slope the code computes raises nothing, is 0
  exactly for \<open>\<Delta>row = 0\<close> with \<open>\<Delta>col \<noteq> 0\<close>, is the vertical sentinel exactly for
  \<open>\<Delta>col = 0\<close>, and has magnitude 1 exactly for \<open>|\<Delta>row| = |\<Delta>col|\<close> with \<open>\<Delta>col \<noteq> 0\<close>.
\<close>
theorem king_move_legal_iff:
  assumes "is_within_bounds (sr, sc)" and "is_within_bounds (er, ec)"
    and "board_at (board b) sr sc = Inr (Some p)" and "piece_type p = KING"
    and "board_at (board b) er ec = Inr target"
    and "target = None \<or> color (the target) \<noteq> color p"
  shows "is_valid_move b (sr, sc) (er, ec) =
           Inr (queen_geometry (sr, sc) (er, ec) \<and> max \<bar>er - sr\<bar> \<bar>ec - sc\<bar> = 1)
       \<and> is_valid_move b (sr, sc) (er, ec) = Inr (max \<bar>er - sr\<bar> \<bar>ec - sc\<bar> = 1)
       \<and> (\<exists>sl. calculate_slope (sr, sc) (er, ec) = Inr sl
             \<and> (float_eq_int sl 0 \<longleftrightarrow> er - sr = 0 \<and> ec - sc \<noteq> 0)
             \<and> (sl = PosInf \<longleftrightarrow> ec - sc = 0)
             \<and> (float_eq_int (py_abs sl) 1 \<longleftrightarrow>
                  \<bar>er - sr\<bar> = \<bar>ec - sc\<bar> \<and> ec - sc \<noteq> 0))"
proof -
  from assms(1) have "- 8 \<le> sr" "sr < 8" "- 8 \<le> sc" "sc < 8" by simp_all
  from slope_on_board [OF this assms(2)] obtain sl where
    sl: "calculate_slope (sr, sc) (er, ec) = Inr sl"
    and zero: "float_eq_int sl 0 \<longleftrightarrow> er = sr \<and> ec \<noteq> sc"
    and inf: "sl = PosInf \<longleftrightarrow> ec = sc"
    and one: "float_eq_int (py_abs sl) 1 \<longleftrightarrow> \<bar>er - sr\<bar> = \<bar>ec - sc\<bar> \<and> ec \<noteq> sc"
    by blast
  have geo: "(float_eq_int sl 0 \<or> sl = PosInf \<or> float_eq_int (py_abs sl) 1)
               = queen_geometry (sr, sc) (er, ec)"
    unfolding zero inf one by auto
  from is_valid_move_dispatch [OF assms(2,3,5,6) sl] assms(4)
  have king: "is_valid_move b (sr, sc) (er, ec) =
          Inr (queen_geometry (sr, sc) (er, ec) \<and> max \<bar>er - sr\<bar> \<bar>ec - sc\<bar> = 1)"
    by (simp add: is_valid_king_move_def geo del: queen_geometry.simps)
  have adj: "(queen_geometry (sr, sc) (er, ec) \<and> max \<bar>er - sr\<bar> \<bar>ec - sc\<bar> = 1)
               = (max \<bar>er - sr\<bar> \<bar>ec - sc\<bar> = 1)"
    by (auto simp: max_def split: if_splits)
  have slope: "\<exists>sl. calculate_slope (sr, sc) (er, ec) = Inr sl
             \<and> (float_eq_int sl 0 \<longleftrightarrow> er - sr = 0 \<and> ec - sc \<noteq> 0)
             \<and> (sl = PosInf \<longleftrightarrow> ec - sc = 0)
             \<and> (float_eq_int (py_abs sl) 1 \<longleftrightarrow>
                  \<bar>er - sr\<bar> = \<bar>ec - sc\<bar> \<and> ec - sc \<noteq> 0)"
    using sl zero inf one by auto
  from king adj slope show ?thesis by (simp del: is_valid_move.simps queen_geometry.simps)
qed

lemma lone_king_at: "board_at (board lone_king_board) 4 4 = Inr (Some (new_piece KING WHITE))"
  "board_at (board lone_king_board) 5 5 = Inr None"
  "board_at (board lone_king_board) 6 6 = Inr None"
  by code_simp+

theorem king_move_legal_iff_witness:
  "is_within_bounds (4, 4) \<and> is_within_bounds (5, 5) \<and> is_within_bounds (6, 6)
   \<and> board_at (board lone_king_board) 4 4 = Inr (Some (new_piece KING WHITE))
   \<and> piece_type (new_piece KING WHITE) = KING
   \<and> board_at (board lone_king_board) 5 5 = Inr None
   \<and> board_at (board lone_king_board) 6 6 = Inr None
   \<and> queen_geometry (4, 4) (5, 5) \<and> queen_geometry (4, 4) (6, 6)
   \<and> is_valid_move lone_king_board (4, 4) (5, 5) = Inr True
   \<and> is_valid_move lone_king_board (4, 4) (6, 6) = Inr False"
proof -
  have h: "is_within_bounds (4, 4)" "is_within_bounds (5, 5)"
    "board_at (board lone_king_board) 4 4 = Inr (Some (new_piece KING WHITE))"
    "piece_type (new_piece KING WHITE) = KING"
    "board_at (board lone_king_board) 5 5 = Inr None"
    "None = None \<or> color (the None) \<noteq> color (new_piece KING WHITE)"
    by (simp_all add: lone_king_at new_piece_def)
  have h': "is_within_bounds (6, 6)" "board_at (board lone_king_board) 6 6 = Inr None"
    by (simp_all add: lone_king_at)
  from king_move_legal_iff [OF h] king_move_legal_iff [OF h(1) h'(1) h(3,4) h'(2) h(6)] h h'
  show ?thesis by (simp del: is_valid_move.simps)
qed

text \<open>
  Claim C1. Whenever \<^verbatim>\<open>is_valid_move\<close> returns \<^verbatim>\<open>False\<close> for a pair of coordinates,
  \<^verbatim>\<open>make_move\<close> on that pair returns \<^verbatim>\<open>False\<close> and the board it leaves behind, grid
  and \<^verbatim>\<open>current_turn\<close>, is the board it was given.
\<close>
theorem make_move_illegal_is_noop:
  assumes "is_valid_move b start_pos end_pos = Inr False"
  shows "make_move b start_pos end_pos = Inr (False, b)"
  using assms by (cases start_pos; cases end_pos) simp

theorem make_move_illegal_is_noop_witness:
  "is_valid_move new_ChessBoard (0, 1) (3, 1) = Inr False
   \<and> make_move new_ChessBoard (0, 1) (3, 1) = Inr (False, new_ChessBoard)"
proof -
  have h: "is_valid_move new_ChessBoard (0, 1) (3, 1) = Inr False" by code_simp
  from h make_move_illegal_is_noop [OF h] show ?thesis by simp
qed

text \<open>
  Claim C3 as stated fails at two inputs. For the null move from (3, 3) to (3, 3) the
  slope is the vertical sentinel, which the rook predicate accepts, although the move
  is neither pure horizontal nor pure vertical. For the move from (0, 0) to
  (1, 2 ^ 1076) the quotient underflows to \<^verbatim>\<open>0.0\<close>, which the rook predicate accepts,
  although the row changes.
\<close>
theorem rook_predicate_null_move_counterexample:
  "calculate_slope (3, 3) (3, 3) = Inr PosInf \<and> is_valid_rook_move PosInf
   \<and> \<not> rook_pure_line (3, 3) (3, 3)
   \<and> calculate_slope (0, 0) (1, 2 ^ 1076) = Inr (Fin 0) \<and> is_valid_rook_move (Fin 0)
   \<and> \<not> rook_pure_line (0, 0) (1, 2 ^ 1076)"
proof -
  have a: "calculate_slope (3, 3) (3, 3) = Inr PosInf" by simp
  have b: "is_valid_rook_move PosInf" "is_valid_rook_move (Fin 0)"
    by (simp_all add: is_valid_rook_move_def)
  have c: "\<not> rook_pure_line (3, 3) (3, 3)" "\<not> rook_pure_line (0, 0) (1, 2 ^ 1076)"
    by simp_all
  from a b c slope_underflow show ?thesis by blast
qed

text \<open>
  Claim C3, amended. For every pair of coordinates whose row and column deltas are
  below \<open>2 ^ 53\<close> in magnitude (every pair of board coordinates is), the slope is
  computed without an exception and the rook predicate accepts it exactly when the move
  is pure horizontal, pure vertical, or the null move from a square to itself.
\<close>
theorem rook_predicate_geometry:
  assumes "\<bar>er - sr\<bar> < 2 ^ 53" and "\<bar>ec - sc\<bar> < 2 ^ 53"
  shows "\<exists>sl. calculate_slope (sr, sc) (er, ec) = Inr sl
          \<and> is_valid_rook_move sl = (rook_pure_line (sr, sc) (er, ec) \<or> (sr, sc) = (er, ec))"
proof -
  from slope_small [OF assms] obtain sl where
    sl: "calculate_slope (sr, sc) (er, ec) = Inr sl"
        "float_eq_int sl 0 \<longleftrightarrow> er = sr \<and> ec \<noteq> sc" "sl = PosInf \<longleftrightarrow> ec = sc"
    by blast
  have "is_valid_rook_move sl = (rook_pure_line (sr, sc) (er, ec) \<or> (sr, sc) = (er, ec))"
    using sl(2,3) by (auto simp: is_valid_rook_move_def)
  with sl(1) show ?thesis by blast
qed

theorem rook_predicate_geometry_witness:
  "\<bar>3 - 3 :: int\<bar> < 2 ^ 53 \<and> \<bar>7 - 3 :: int\<bar> < 2 ^ 53
   \<and> (\<exists>sl. calculate_slope (3, 3) (3, 7) = Inr sl \<and> is_valid_rook_move sl)"
proof -
  have h: "\<bar>3 - 3 :: int\<bar> < 2 ^ 53" "\<bar>7 - 3 :: int\<bar> < 2 ^ 53" by simp_all
  from rook_predicate_geometry [OF h] show ?thesis by simp
qed

text \<open>
  Claim C4. For start and end coordinates with components in 0..7 the slope is
  computed without an exception, and the floating-point bishop test \<^verbatim>\<open>abs(slope) == 1\<close>
  decides exactly as the exact-integer test \<open>|\<Delta>row| = |\<Delta>col|\<close> with both deltas
  nonzero.
\<close>
theorem bishop_float_test_is_exact:
  assumes "is_within_bounds (sr, sc)" and "is_within_bounds (er, ec)"
  shows "\<exists>sl. calculate_slope (sr, sc) (er, ec) = Inr sl
          \<and> is_valid_bishop_move sl = bishop_exact_int (sr, sc) (er, ec)"
proof -
  from assms(1) have "- 8 \<le> sr" "sr < 8" "- 8 \<le> sc" "sc < 8" by simp_all
  from slope_on_board [OF this assms(2)] obtain sl where
    sl: "calculate_slope (sr, sc) (er, ec) = Inr sl"
        "float_eq_int (py_abs sl) 1 \<longleftrightarrow> \<bar>er - sr\<bar> = \<bar>ec - sc\<bar> \<and> ec \<noteq> sc"
    by blast
  have "is_valid_bishop_move sl = bishop_exact_int (sr, sc) (er, ec)"
    using sl(2) by (auto simp: is_valid_bishop_move_def)
  with sl(1) show ?thesis by blast
qed

theorem bishop_float_test_is_exact_witness:
  "is_within_bounds (0, 0) \<and> is_within_bounds (3, 3) \<and> bishop_exact_int (0, 0) (3, 3)
   \<and> (\<exists>sl. calculate_slope (0, 0) (3, 3) = Inr sl \<and> is_valid_bishop_move sl)"
proof -
  have h: "is_within_bounds (0, 0)" "is_within_bounds (3, 3)" by simp_all
  from bishop_float_test_is_exact [OF h] show ?thesis by simp
qed

lemma pawn_dispatch:
  assumes "is_within_bounds (er, ec)"
    and "- 8 \<le> sr" "sr < 8" "- 8 \<le> sc" "sc < 8"
    and "board_at (board b) sr sc = Inr (Some p)" and "piece_type p = PAWN"
    and "board_at (board b) er ec = Inr target"
    and "target = None \<or> color (the target) \<noteq> color p"
  shows "is_valid_move b (sr, sc) (er, ec) = is_valid_pawn_move b (sr, sc) (er, ec) (color p)"
proof -
  from slope_on_board [OF assms(2-5,1)] obtain sl where
    sl: "calculate_slope (sr, sc) (er, ec) = Inr sl" by blast
  from is_valid_move_dispatch [OF assms(1,6,8,9) sl] assms(7) show ?thesis by simp
qed

lemma read_piece_fails:
  "read_has_moved (pawn_scope self start_pos end_pos clr direction) ''piece'' = Inl NameError"
  by (simp add: read_has_moved_def pawn_scope_def)

lemma pawn_move_cases:
  assumes "board_at (board b) er ec = Inr target" and "d = (if clr = BLACK then 1 else - 1)"
  shows "is_valid_pawn_move b (sr, sc) (er, ec) clr =
     (if sc = ec then (if er - sr = d then Inr (target = None) else Inl NameError)
      else if \<bar>ec - sc\<bar> = 1 \<and> er - sr = d then Inr (target \<noteq> None)
      else Inr False)"
  using assms by (simp add: read_piece_fails Let_def)

text \<open>
  Claim C5. For a pawn on an in-bounds start square and an in-bounds end square that
  holds no piece of the pawn's colour, with \<open>d\<close> the pawn's direction: a same-column
  move to row \<open>start row + d\<close> is legal exactly when the destination is empty; a move
  with \<open>|\<Delta>col| = 1\<close> to row \<open>start row + d\<close> is legal exactly when the destination is
  occupied; a move to another column into an empty square is illegal; and a
  same-column move onto an occupied square is never legal.
\<close>
theorem pawn_single_step:
  assumes "is_within_bounds (sr, sc)" and "is_within_bounds (er, ec)"
    and "board_at (board b) sr sc = Inr (Some p)" and "piece_type p = PAWN"
    and "board_at (board b) er ec = Inr target"
    and "target = None \<or> color (the target) \<noteq> color p"
    and "d = (if color p = BLACK then 1 else - 1)"
  shows "(er = sr + d \<and> ec = sc \<longrightarrow> is_valid_move b (sr, sc) (er, ec) = Inr (target = None))
       \<and> (er = sr + d \<and> \<bar>ec - sc\<bar> = 1 \<longrightarrow>
            is_valid_move b (sr, sc) (er, ec) = Inr (target \<noteq> None))
       \<and> (ec \<noteq> sc \<and> target = None \<longrightarrow> is_valid_move b (sr, sc) (er, ec) = Inr False)
       \<and> (ec = sc \<and> target \<noteq> None \<longrightarrow> is_valid_move b (sr, sc) (er, ec) \<noteq> Inr True)"
proof -
  from assms(1) have s: "- 8 \<le> sr" "sr < 8" "- 8 \<le> sc" "sc < 8" by simp_all
  have disp: "is_valid_move b (sr, sc) (er, ec)
                = is_valid_pawn_move b (sr, sc) (er, ec) (color p)"
    by (rule pawn_dispatch [OF assms(2) s assms(3-6)])
  show ?thesis
    unfolding disp pawn_move_cases [OF assms(5,7)] by auto
qed

lemma lone_pawn_at:
  "board_at (board lone_pawn_board) 6 3 = Inr (Some (new_piece PAWN WHITE))"
  "board_at (board lone_pawn_board) 5 3 = Inr None"
  "board_at (board lone_pawn_board) 4 3 = Inr None"
  "board_at (board lone_pawn_board) 5 4 = Inr None"
  by code_simp+

theorem pawn_single_step_witness:
  "is_within_bounds (6, 3) \<and> is_within_bounds (5, 3)
   \<and> board_at (board lone_pawn_board) 6 3 = Inr (Some (new_piece PAWN WHITE))
   \<and> piece_type (new_piece PAWN WHITE) = PAWN
   \<and> board_at (board lone_pawn_board) 5 3 = Inr None
   \<and> (5::int) = 6 + (if color (new_piece PAWN WHITE) = BLACK then 1 else - 1)
   \<and> is_valid_move lone_pawn_board (6, 3) (5, 3) = Inr True"
proof -
  have h: "is_within_bounds (6, 3)" "is_within_bounds (5, 3)"
    "board_at (board lone_pawn_board) 6 3 = Inr (Some (new_piece PAWN WHITE))"
    "piece_type (new_piece PAWN WHITE) = PAWN"
    "board_at (board lone_pawn_board) 5 3 = Inr None"
    "None = None \<or> color (the None) \<noteq> color (new_piece PAWN WHITE)"
    "(- 1 :: int) = (if color (new_piece PAWN WHITE) = BLACK then 1 else - 1)"
    by (simp_all add: lone_pawn_at new_piece_def)
  from pawn_single_step [OF h] h show ?thesis
    by (simp del: is_valid_move.simps)
qed

text \<open>
  Claim C6, evaluated on the code. On a board whose only piece is a white pawn that
  has not moved, on (6, 3), with (5, 3) and (4, 3) empty, the same-column move to
  row \<open>6 + 2 * (-1)\<close> does not return \<^verbatim>\<open>True\<close>: the call raises \<^verbatim>\<open>NameError\<close>.
\<close>
theorem pawn_double_advance_evaluation:
  "board_at (board lone_pawn_board) 6 3 = Inr (Some (new_piece PAWN WHITE))
   \<and> \<not> has_moved (new_piece PAWN WHITE)
   \<and> board_at (board lone_pawn_board) 5 3 = Inr None
   \<and> board_at (board lone_pawn_board) 4 3 = Inr None
   \<and> is_valid_move lone_pawn_board (6, 3) (4, 3) = Inl NameError"
proof -
  have "is_valid_move lone_pawn_board (6, 3) (4, 3) = Inl NameError" by code_simp
  then show ?thesis by (simp add: lone_pawn_at new_piece_def del: is_valid_move.simps)
qed

text \<open>
  Claim C7. For a pawn found at the start square, with \<open>d\<close> its direction, the pawn
  predicate applied to the same-column move to row \<open>start row + 2 * d\<close> raises
  \<^verbatim>\<open>NameError\<close> instead of returning a boolean; \<^verbatim>\<open>is_valid_move\<close> never returns
  \<^verbatim>\<open>True\<close> for such a move, and raises \<^verbatim>\<open>NameError\<close> whenever the destination is in
  bounds and holds no piece of the pawn's colour.
\<close>
theorem pawn_double_advance_raises:
  assumes "- 8 \<le> sr" "sr < 8" "- 8 \<le> sc" "sc < 8"
    and "board_at (board b) sr sc = Inr (Some p)" and "piece_type p = PAWN"
    and "d = (if color p = BLACK then 1 else - 1)"
  shows "is_valid_pawn_move b (sr, sc) (sr + 2 * d, sc) (color p) = Inl NameError
       \<and> is_valid_move b (sr, sc) (sr + 2 * d, sc) \<noteq> Inr True
       \<and> (is_within_bounds (sr + 2 * d, sc)
            \<and> (\<exists>target. board_at (board b) (sr + 2 * d) sc = Inr target
                  \<and> (target = None \<or> color (the target) \<noteq> color p))
          \<longrightarrow> is_valid_move b (sr, sc) (sr + 2 * d, sc) = Inl NameError)"
proof -
  have pawn: "is_valid_pawn_move b (sr, sc) (sr + 2 * d, sc) (color p) = Inl NameError"
    using assms(7) by (simp add: read_piece_fails Let_def)
  have main: "is_valid_move b (sr, sc) (sr + 2 * d, sc) = Inl NameError"
    if "is_within_bounds (sr + 2 * d, sc)"
      and "board_at (board b) (sr + 2 * d) sc = Inr target"
      and "target = None \<or> color (the target) \<noteq> color p" for target
    using pawn_dispatch [OF that(1) assms(1-6) that(2,3)] pawn by simp
  have never: "is_valid_move b (sr, sc) (sr + 2 * d, sc) \<noteq> Inr True"
  proof (cases "is_within_bounds (sr + 2 * d, sc)")
    case False
    then show ?thesis by simp
  next
    case inb: True
    show ?thesis
    proof (cases "board_at (board b) (sr + 2 * d) sc")
      case (Inl e)
      with inb assms(5) show ?thesis by simp
    next
      case (Inr target)
      show ?thesis
      proof (cases "target = None \<or> color (the target) \<noteq> color p")
        case True
        from main [OF inb Inr True] show ?thesis by simp
      next
        case False
        with inb assms(5) Inr show ?thesis by auto
      qed
    qed
  qed
  from pawn main never show ?thesis by blast
qed

theorem pawn_double_advance_raises_witness:
  "board_at (board lone_pawn_board) 6 3 = Inr (Some (new_piece PAWN WHITE))
   \<and> piece_type (new_piece PAWN WHITE) = PAWN
   \<and> is_within_bounds (4, 3)
   \<and> board_at (board lone_pawn_board) 4 3 = Inr None
   \<and> is_valid_pawn_move lone_pawn_board (6, 3) (4, 3) WHITE = Inl NameError
   \<and> is_valid_move lone_pawn_board (6, 3) (4, 3) = Inl NameError"
proof -
  have h: "- 8 \<le> (6::int)" "(6::int) < 8" "- 8 \<le> (3::int)" "(3::int) < 8"
    "board_at (board lone_pawn_board) 6 3 = Inr (Some (new_piece PAWN WHITE))"
    "piece_type (new_piece PAWN WHITE) = PAWN"
    "(- 1 :: int) = (if color (new_piece PAWN WHITE) = BLACK then 1 else - 1)"
    by (simp_all add: lone_pawn_at new_piece_def)
  from pawn_double_advance_raises [OF h] lone_pawn_at h show ?thesis
    by (simp add: new_piece_def del: is_valid_move.simps is_valid_pawn_move.simps)
qed

text \<open>
  Claim C8. After any sequence of \<open>N\<close> calls of \<^verbatim>\<open>make_move\<close> on the freshly
  constructed board that all return \<^verbatim>\<open>True\<close>, \<^verbatim>\<open>current_turn\<close> is white if \<open>N\<close> is even
  and black if \<open>N\<close> is odd, whichever pieces were moved.
\<close>
theorem turn_parity_after_successful_moves:
  assumes "make_moves new_ChessBoard ms = Some b'"
  shows "current_turn b' = (if even (length ms) then WHITE else BLACK)"
  using make_moves_turn [OF assms] by (simp add: new_ChessBoard_def)

theorem turn_parity_after_successful_moves_witness:
  "(\<exists>b'. make_moves new_ChessBoard [((0, 0), (3, 0)), ((3, 0), (4, 0))] = Some b'
         \<and> current_turn b' = WHITE)"
proof -
  have "make_moves new_ChessBoard [((0, 0), (3, 0)), ((3, 0), (4, 0))] \<noteq> None" by code_simp
  then obtain b' where
    h: "make_moves new_ChessBoard [((0, 0), (3, 0)), ((3, 0), (4, 0))] = Some b'" by blast
  from turn_parity_after_successful_moves [OF h] h show ?thesis by simp
qed

lemma new_board_8x8: "grid_8x8 (board new_ChessBoard)"
  by code_simp





section \<open>The path-obstruction check\<close>

lemma step_in_bounds:
  assumes d: "d = - 1 \<or> d = 0 \<or> d = 1"
    and "0 \<le> x" "x < 8" "0 \<le> x + n * d" "x + n * d < 8" and "0 \<le> j" "j \<le> n"
  shows "0 \<le> x + j * d \<and> x + j * d < (8::int)"
  using assms by auto

lemma path_loop_line:
  assumes g: "grid_8x8 g"
    and dr: "dr = - 1 \<or> dr = 0 \<or> dr = 1" and dc: "dc = - 1 \<or> dc = 0 \<or> dc = 1"
    and nz: "dr \<noteq> 0 \<or> dc \<noteq> 0"
    and s: "is_within_bounds (sr, sc)" and e: "is_within_bounds (sr + n * dr, sc + n * dc)"
    and k: "0 \<le> k" "k \<le> n"
  shows "path_loop g (sr + n * dr, sc + n * dc) dr dc (sr + k * dr) (sc + k * dc)
         = Some (Inr (\<forall>j. k \<le> j \<and> j < n \<longrightarrow> board_at g (sr + j * dr) (sc + j * dc) = Inr None))"
  using k
proof (induction "nat (n - k)" arbitrary: k)
  case 0
  then have "k = n" by simp
  then show ?case by (subst path_loop.simps) auto
next
  case (Suc m)
  then have kn: "k < n" by linarith
  have ne: "(sr + k * dr, sc + k * dc) \<noteq> (sr + n * dr, sc + n * dc)"
    using kn nz by auto
  have inb: "0 \<le> sr + k * dr \<and> sr + k * dr < 8" "0 \<le> sc + k * dc \<and> sc + k * dc < 8"
    using s e Suc.prems dr dc by (auto intro!: step_in_bounds [of _ _ n])
  then obtain cell where cell: "board_at g (sr + k * dr) (sc + k * dc) = Inr cell"
    by (simp add: board_at_8x8 [OF g])
  show ?case
  proof (cases cell)
    case (Some p)
    with cell kn have "\<not> (\<forall>j. k \<le> j \<and> j < n \<longrightarrow> board_at g (sr + j * dr) (sc + j * dc) = Inr None)"
      by (auto intro: exI [of _ k])
    with ne cell Some show ?thesis by (subst path_loop.simps) simp
  next
    case None
    have m: "m = nat (n - (k + 1))" using Suc.hyps(2) by simp
    have IH: "path_loop g (sr + n * dr, sc + n * dc) dr dc (sr + (k + 1) * dr) (sc + (k + 1) * dc)
        = Some (Inr (\<forall>j. k + 1 \<le> j \<and> j < n \<longrightarrow> board_at g (sr + j * dr) (sc + j * dc) = Inr None))"
      using Suc.hyps(1) [OF m] Suc.prems kn by simp
    have split: "(\<forall>j. k \<le> j \<and> j < n \<longrightarrow> board_at g (sr + j * dr) (sc + j * dc) = Inr None)
        \<longleftrightarrow> (\<forall>j. k + 1 \<le> j \<and> j < n \<longrightarrow> board_at g (sr + j * dr) (sc + j * dc) = Inr None)"
    proof
      assume a: "\<forall>j. k + 1 \<le> j \<and> j < n \<longrightarrow> board_at g (sr + j * dr) (sc + j * dc) = Inr None"
      show "\<forall>j. k \<le> j \<and> j < n \<longrightarrow> board_at g (sr + j * dr) (sc + j * dc) = Inr None"
      proof (intro allI impI)
        fix j assume "k \<le> j \<and> j < n"
        then consider "j = k" | "k + 1 \<le> j \<and> j < n" by linarith
        then show "board_at g (sr + j * dr) (sc + j * dc) = Inr None"
          using a cell None by cases auto
      qed
    qed auto
    have next_sq: "sr + k * dr + dr = sr + (k + 1) * dr" "sc + k * dc + dc = sc + (k + 1) * dc"
      by (simp_all add: algebra_simps)
    show ?thesis
      using ne cell None by (subst path_loop.simps) (simp add: next_sq IH split)
  qed
qed

lemma set_all_squares:
  "(r, c) \<in> set all_squares \<longleftrightarrow> 0 \<le> r \<and> r \<le> 7 \<and> 0 \<le> c \<and> c \<le> 7"
  by (auto simp: all_squares_def image_iff)

lemma strictly_between_line:
  assumes dr: "dr = - 1 \<or> dr = 0 \<or> dr = 1" and dc: "dc = - 1 \<or> dc = 0 \<or> dc = 1"
    and nz: "dr \<noteq> 0 \<or> dc \<noteq> 0" and n: "1 \<le> n"
  shows "strictly_between (sr, sc) (sr + n * dr, sc + n * dc) (r, c)
         \<longleftrightarrow> (\<exists>j. 1 \<le> j \<and> j < n \<and> r = sr + j * dr \<and> c = sc + j * dc)"
proof
  assume "\<exists>j. 1 \<le> j \<and> j < n \<and> r = sr + j * dr \<and> c = sc + j * dc"
  then obtain j where j: "1 \<le> j" "j < n" "r = sr + j * dr" "c = sc + j * dc" by blast
  with dr dc nz show "strictly_between (sr, sc) (sr + n * dr, sc + n * dc) (r, c)"
    by auto
next
  assume sb: "strictly_between (sr, sc) (sr + n * dr, sc + n * dc) (r, c)"
  then have cross: "(r - sr) * (n * dc) = (c - sc) * (n * dr)" by simp
  then have "n * ((r - sr) * dc) = n * ((c - sc) * dr)" by (simp add: mult_ac)
  with n have lin: "(r - sr) * dc = (c - sc) * dr" by simp
  define j where "j = max \<bar>r - sr\<bar> \<bar>c - sc\<bar>"
  from sb dr dc nz n lin have "1 \<le> j \<and> j < n \<and> r = sr + j * dr \<and> c = sc + j * dc"
    unfolding j_def by (elim disjE) (auto simp: min_def max_def split: if_splits)
  then show "\<exists>j. 1 \<le> j \<and> j < n \<and> r = sr + j * dr \<and> c = sc + j * dc" by blast
qed

lemma floor_div_abs:
  "x \<noteq> 0 \<Longrightarrow> (x::int) div \<bar>x\<bar> = sgn x"
  by (cases "0 < x") (auto simp: sgn_if zdiv_zminus2_eq_if)

text \<open>
  Claim C9. On an 8 by 8 grid, for distinct in-bounds squares that lie on one row, one
  column or one diagonal, \<^verbatim>\<open>is_path_clear\<close> returns (the loop ends and raises nothing),
  and it returns \<^verbatim>\<open>True\<close> exactly when every square strictly between the two, both
  endpoints excluded, is empty.
\<close>
theorem is_path_clear_iff_between_empty:
  assumes g: "grid_8x8 (board b)"
    and s: "is_within_bounds (sr, sc)" and e: "is_within_bounds (er, ec)"
    and ne: "(sr, sc) \<noteq> (er, ec)"
    and line: "sr = er \<or> sc = ec \<or> \<bar>er - sr\<bar> = \<bar>ec - sc\<bar>"
  shows "is_path_clear b (sr, sc) (er, ec)
         = Some (Inr (list_all (square_empty b) (squares_between (sr, sc) (er, ec))))"
proof -
  define n where "n = max \<bar>er - sr\<bar> \<bar>ec - sc\<bar>"
  define dr where "dr = sgn (er - sr)"
  define dc where "dc = sgn (ec - sc)"
  have dr: "dr = - 1 \<or> dr = 0 \<or> dr = 1" and dc: "dc = - 1 \<or> dc = 0 \<or> dc = 1"
    by (auto simp: dr_def dc_def sgn_if)
  have nz: "dr \<noteq> 0 \<or> dc \<noteq> 0" using ne by (auto simp: dr_def dc_def sgn_if)
  have n: "1 \<le> n" using ne by (auto simp: n_def)
  have er: "er = sr + n * dr" and ec: "ec = sc + n * dc"
    using line ne by (auto simp: n_def dr_def dc_def sgn_if max_def)
  have steps: "(if sr = er then 0 else (er - sr) div \<bar>er - sr\<bar>) = dr"
    "(if sc = ec then 0 else (ec - sc) div \<bar>ec - sc\<bar>) = dc"
    by (simp_all add: dr_def dc_def floor_div_abs)
  have e': "is_within_bounds (sr + n * dr, sc + n * dc)" using e er ec by simp
  have "is_path_clear b (sr, sc) (er, ec)
          = path_loop (board b) (er, ec) dr dc (sr + dr) (sc + dc)"
    by (simp add: steps Let_def)
  also have "\<dots> = path_loop (board b) (sr + n * dr, sc + n * dc) dr dc
                      (sr + 1 * dr) (sc + 1 * dc)"
    using er ec by simp
  also have "\<dots> = Some (Inr (\<forall>j. 1 \<le> j \<and> j < n \<longrightarrow>
                      board_at (board b) (sr + j * dr) (sc + j * dc) = Inr None))"
    using n by (intro path_loop_line [OF g dr dc nz s e']) simp_all
  also have "(\<forall>j. 1 \<le> j \<and> j < n \<longrightarrow> board_at (board b) (sr + j * dr) (sc + j * dc) = Inr None)
      \<longleftrightarrow> list_all (square_empty b) (squares_between (sr, sc) (er, ec))"
  proof
    assume a: "\<forall>j. 1 \<le> j \<and> j < n \<longrightarrow> board_at (board b) (sr + j * dr) (sc + j * dc) = Inr None"
    show "list_all (square_empty b) (squares_between (sr, sc) (er, ec))"
      unfolding list_all_iff squares_between_def
    proof
      fix p assume p: "p \<in> set (filter (strictly_between (sr, sc) (er, ec)) all_squares)"
      obtain r c where rc: "p = (r, c)" by (cases p)
      from p rc have "strictly_between (sr, sc) (sr + n * dr, sc + n * dc) (r, c)"
        using er ec by simp
      then obtain j where "1 \<le> j" "j < n" "r = sr + j * dr" "c = sc + j * dc"
        unfolding strictly_between_line [OF dr dc nz n] by blast
      with a rc show "square_empty b p" by (simp add: square_empty_def)
    qed
  next
    assume a: "list_all (square_empty b) (squares_between (sr, sc) (er, ec))"
    show "\<forall>j. 1 \<le> j \<and> j < n \<longrightarrow> board_at (board b) (sr + j * dr) (sc + j * dc) = Inr None"
    proof (intro allI impI)
      fix j assume j: "1 \<le> j \<and> j < n"
      then have sb: "strictly_between (sr, sc) (sr + n * dr, sc + n * dc) (sr + j * dr, sc + j * dc)"
        unfolding strictly_between_line [OF dr dc nz n] by blast
      have "0 \<le> sr + j * dr \<and> sr + j * dr < 8" "0 \<le> sc + j * dc \<and> sc + j * dc < 8"
        using s e' j dr dc by (auto intro!: step_in_bounds [of _ _ n])
      then have "(sr + j * dr, sc + j * dc) \<in> set all_squares"
        by (simp add: set_all_squares)
      with sb have "(sr + j * dr, sc + j * dc) \<in> set (squares_between (sr, sc) (er, ec))"
        using er ec by (simp add: squares_between_def)
      with a have "square_empty b (sr + j * dr, sc + j * dc)" by (simp add: list_all_iff)
      then show "board_at (board b) (sr + j * dr) (sc + j * dc) = Inr None"
        by (simp add: square_empty_def)
    qed
  qed
  finally show ?thesis .
qed

theorem is_path_clear_iff_between_empty_witness:
  "grid_8x8 (board new_ChessBoard) \<and> is_within_bounds (1, 0) \<and> is_within_bounds (6, 5)
   \<and> squares_between (1, 0) (6, 5) = [(2, 1), (3, 2), (4, 3), (5, 4)]
   \<and> is_path_clear new_ChessBoard (1, 0) (6, 5) = Some (Inr True)
   \<and> squares_between (0, 0) (3, 0) = [(1, 0), (2, 0)]
   \<and> is_path_clear new_ChessBoard (0, 0) (3, 0) = Some (Inr False)"
proof -
  have h: "grid_8x8 (board new_ChessBoard)" "is_within_bounds (1, 0)" "is_within_bounds (6, 5)"
    "((1, 0) :: pos) \<noteq> (6, 5)" "(1::int) = 6 \<or> (0::int) = 5 \<or> \<bar>6 - 1 :: int\<bar> = \<bar>5 - 0\<bar>"
    by (simp_all add: new_board_8x8)
  have h': "is_within_bounds (0, 0)" "is_within_bounds (3, 0)"
    "((0, 0) :: pos) \<noteq> (3, 0)" "(0::int) = 3 \<or> (0::int) = 0 \<or> \<bar>3 - 0 :: int\<bar> = \<bar>0 - 0\<bar>"
    by simp_all
  have sq: "squares_between (1, 0) (6, 5) = [(2, 1), (3, 2), (4, 3), (5, 4)]"
    "squares_between (0, 0) (3, 0) = [(1, 0), (2, 0)]"
    by code_simp+
  have em: "list_all (square_empty new_ChessBoard) [(2, 1), (3, 2), (4, 3), (5, 4)]"
    "\<not> list_all (square_empty new_ChessBoard) [(1, 0), (2, 0)]"
    by code_simp+
  from is_path_clear_iff_between_empty [OF h] is_path_clear_iff_between_empty [OF h(1) h']
    sq em h
  show ?thesis by (simp del: is_path_clear.simps is_within_bounds.simps)
qed

end
